theory Spec2Isabelle
  imports Main "HOL-Library.Sublist"
begin

section \<open>The category rewrite script \<^verbatim>\<open>scripts/archive/update_categories.py\<close>\<close>

text \<open>
  Python strings are modelled as \<^typ>\<open>string\<close> (lists of characters). The operator
  \<^verbatim>\<open>x in s\<close> on two strings is \<^term>\<open>sublist x s\<close> (a contiguous occurrence), and
  \<^verbatim>\<open>s.startswith(x)\<close> is \<^term>\<open>prefix x s\<close>.
\<close>

subsection \<open>String primitives of the Python library used by the script\<close>

definition dq :: char where
  "dq = CHR 0x22"

definition nl :: char where
  "nl = CHR 0x0A"

text \<open>
  \<^verbatim>\<open>re.sub(pattern, replacement, content)\<close> for a pattern that matches one literal text
  only. Every pattern of the table below is such a pattern: its only regular-expression
  syntax is the escaping of the brackets and parentheses, and no replacement holds a
  backslash. The scan goes from left to right, replaces each match it meets and resumes
  behind the match, so the matches replaced are the leftmost non-overlapping ones. (An
  empty pattern matches at every position, also at the end.)
\<close>

fun re_sub :: "string \<Rightarrow> string \<Rightarrow> string \<Rightarrow> string" where
  "re_sub pat rep [] = (if pat = [] then rep else [])"
| "re_sub pat rep (c # cs) =
     (if pat = [] then rep @ c # re_sub pat rep cs
      else if prefix pat (c # cs) then rep @ re_sub pat rep (drop (length pat - 1) cs)
      else c # re_sub pat rep cs)"

text \<open>\<^verbatim>\<open>content.split('\n')\<close>: the pieces between the newlines, at least one piece.\<close>

fun split_nl :: "string \<Rightarrow> string list" where
  "split_nl [] = [[]]"
| "split_nl (c # cs) =
     (if c = nl then [] # split_nl cs
      else (case split_nl cs of [] \<Rightarrow> [[c]] | l # ls \<Rightarrow> (c # l) # ls))"

text \<open>\<^verbatim>\<open>'\n'.join(lines)\<close>\<close>

fun join_nl :: "string list \<Rightarrow> string" where
  "join_nl [] = []"
| "join_nl [l] = l"
| "join_nl (l # ls) = l @ nl # join_nl ls"

text \<open>
  \<^verbatim>\<open>s.rstrip()\<close> removes the trailing whitespace; these are the characters below 256
  that Python counts as whitespace.
\<close>

definition is_space :: "char \<Rightarrow> bool" where
  "is_space c \<longleftrightarrow> c \<in> set [CHR 0x09, CHR 0x0A, CHR 0x0B, CHR 0x0C, CHR 0x0D,
     CHR 0x1C, CHR 0x1D, CHR 0x1E, CHR 0x1F, CHR 0x20, CHR 0x85, CHR 0xA0]"

definition rstrip :: "string \<Rightarrow> string" where
  "rstrip s = rev (dropWhile is_space (rev s))"

subsection \<open>The constants of the script\<close>

text \<open>
  The dictionary \<^verbatim>\<open>CATEGORY_REPLACEMENTS\<close>, in insertion order (the order in which
  \<^verbatim>\<open>.items()\<close> yields it), each pattern written as the literal text it matches.
\<close>

definition CATEGORY_REPLACEMENTS :: "(string \<times> string) list" where
  \<open>CATEGORY_REPLACEMENTS =
   [(''=== "protein"'', ''=== CATEGORIES.protein''),
    (''=== "carbs"'', ''=== CATEGORIES.carbs''),
    (''=== "vegetables"'', ''=== CATEGORIES.vegetables''),
    (''=== "fruits"'', ''=== CATEGORIES.fruits''),
    (''=== "dairy"'', ''=== CATEGORIES.dairy''),
    (''=== "fats"'', ''=== CATEGORIES.fats''),
    (''=== "grains"'', ''=== CATEGORIES.grains''),
    (''=== "legumes"'', ''=== CATEGORIES.legumes''),
    (''=== "snacks"'', ''=== CATEGORIES.snacks''),
    (''=== "supplements"'', ''=== CATEGORIES.supplements''),
    (''=== "others"'', ''=== CATEGORIES.others''),

    (''!== "protein"'', ''!== CATEGORIES.protein''),
    (''!== "carbs"'', ''!== CATEGORIES.carbs''),
    (''!== "vegetables"'', ''!== CATEGORIES.vegetables''),
    (''!== "fruits"'', ''!== CATEGORIES.fruits''),
    (''!== "dairy"'', ''!== CATEGORIES.dairy''),
    (''!== "fats"'', ''!== CATEGORIES.fats''),
    (''!== "grains"'', ''!== CATEGORIES.grains''),
    (''!== "legumes"'', ''!== CATEGORIES.legumes''),
    (''!== "snacks"'', ''!== CATEGORIES.snacks''),
    (''!== "supplements"'', ''!== CATEGORIES.supplements''),
    (''!== "others"'', ''!== CATEGORIES.others''),

    (''["protein", "carbs", "vegetables", "fruits", "dairy", "fats", "grains", "legumes", "snacks", "supplements", "others"]'',
     ''[CATEGORIES.protein, CATEGORIES.carbs, CATEGORIES.vegetables, CATEGORIES.fruits, CATEGORIES.dairy, CATEGORIES.fats, CATEGORIES.grains, CATEGORIES.legumes, CATEGORIES.snacks, CATEGORIES.supplements, CATEGORIES.others]''),

    (''("protein")'', ''(CATEGORIES.protein)''),
    (''("carbs")'', ''(CATEGORIES.carbs)''),
    (''("vegetables")'', ''(CATEGORIES.vegetables)''),
    (''("fruits")'', ''(CATEGORIES.fruits)''),
    (''("dairy")'', ''(CATEGORIES.dairy)''),
    (''("fats")'', ''(CATEGORIES.fats)''),
    (''("grains")'', ''(CATEGORIES.grains)''),
    (''("legumes")'', ''(CATEGORIES.legumes)''),
    (''("snacks")'', ''(CATEGORIES.snacks)''),
    (''("supplements")'', ''(CATEGORIES.supplements)''),
    (''("others")'', ''(CATEGORIES.others)'')]\<close>

definition IMPORT_STATEMENT :: string where
  \<open>IMPORT_STATEMENT = ''import { CATEGORIES } from "../core/constants/categories";'' @ [nl]\<close>

definition IMPORT_STATEMENT_NESTED :: string where
  \<open>IMPORT_STATEMENT_NESTED =
     ''import { CATEGORIES } from "../../core/constants/categories";'' @ [nl]\<close>

definition IMPORT_STATEMENT_DEEP :: string where
  \<open>IMPORT_STATEMENT_DEEP =
     ''import { CATEGORIES } from "../../../core/constants/categories";'' @ [nl]\<close>

subsection \<open>Paths\<close>

text \<open>
  A file path as the script uses it: \<^verbatim>\<open>Path(filepath).parts\<close>, the tuple of its segments,
  and \<^verbatim>\<open>str(filepath)\<close>, its text. Both come from \<^verbatim>\<open>pathlib\<close>.
\<close>

record filepath =
  parts :: "string list"
  str :: string

definition should_skip_file :: "filepath \<Rightarrow> bool" where
  "should_skip_file filepath =
     list_ex (\<lambda>pattern. sublist pattern (str filepath))
       [''node_modules'', ''.git'', ''dist'', ''build'', ''categories.ts'']"

definition get_import_statement :: "filepath \<Rightarrow> string" where
  "get_import_statement filepath =
     (if ''tests'' \<in> set (parts filepath) then IMPORT_STATEMENT_NESTED
      else if ''logic'' \<in> set (parts filepath) \<or> ''utils'' \<in> set (parts filepath)
              \<or> ''export'' \<in> set (parts filepath) \<or> ''premium'' \<in> set (parts filepath)
              \<or> ''storage'' \<in> set (parts filepath) then IMPORT_STATEMENT_NESTED
      else if ''components'' \<in> set (parts filepath) \<or> ''pages'' \<in> set (parts filepath)
        then IMPORT_STATEMENT_DEEP
      else IMPORT_STATEMENT)"

subsection \<open>Import insertion\<close>

text \<open>
  The loop of \<^verbatim>\<open>add_import_if_needed\<close> over \<^verbatim>\<open>enumerate(lines)\<close>: at the first line
  that starts with \<^verbatim>\<open>import \<close> the statement is inserted behind it and the loop is left
  (\<open>Some\<close> of the new lines); \<open>None\<close> when the loop ends without such a line.
\<close>

fun insert_after_import :: "string \<Rightarrow> string list \<Rightarrow> string list option" where
  "insert_after_import stmt [] = None"
| "insert_after_import stmt (line # lines) =
     (if prefix ''import '' line then Some (line # stmt # lines)
      else map_option ((#) line) (insert_after_import stmt lines))"

definition add_import_if_needed :: "string \<Rightarrow> filepath \<Rightarrow> string" where
  "add_import_if_needed content filepath =
     (if sublist ''CATEGORIES'' content \<and> \<not> sublist ''import { CATEGORIES }'' content then
        (let import_stmt = get_import_statement filepath;
             lines = split_nl content
         in case insert_after_import (rstrip import_stmt) lines of
              Some lines' \<Rightarrow> join_nl lines'
            | None \<Rightarrow> import_stmt @ content)
      else content)"

subsection \<open>The rewrite\<close>

text \<open>
  The loop of \<^verbatim>\<open>update_file\<close> over the table: every rule is applied, in order, to the
  output of the rule before it.
\<close>

definition apply_replacements :: "(string \<times> string) list \<Rightarrow> string \<Rightarrow> string" where
  "apply_replacements rules content =
     fold (\<lambda>(pattern, replacement) content. re_sub pattern replacement content) rules content"

text \<open>
  The rewrite step with its report: the new content, and whether it differs from the
  old one (\<^verbatim>\<open>content != original\<close>).
\<close>

definition rewrite :: "string \<Rightarrow> string \<times> bool" where
  "rewrite content =
     (let new_content = apply_replacements CATEGORY_REPLACEMENTS content
      in (new_content, new_content \<noteq> content))"

subsection \<open>Files\<close>

text \<open>
  What the script sees of the file system. Reading a file gives its text or raises with
  a cause; writing succeeds, or raises with a cause and leaves the file in some state
  (opening for writing truncates). \<open>writes\<close> records every write the script attempts,
  with the path and the text; \<open>stdout\<close> collects the printed lines.
\<close>

datatype write_outcome = Written | Write_Failed string "string + string"

record world =
  read_text :: "string \<Rightarrow> string + string"
  write_text :: "string \<Rightarrow> string \<Rightarrow> write_outcome"
  writes :: "(string \<times> string) list"
  stdout :: "string list"

text \<open>The body of the \<^verbatim>\<open>try\<close> block: \<open>Inl\<close> is a raised exception with its text.\<close>

definition update_file_try :: "filepath \<Rightarrow> world \<Rightarrow> (string + bool) \<times> world" where
  "update_file_try filepath w =
     (case read_text w (str filepath) of
        Inl e \<Rightarrow> (Inl e, w)
      | Inr original \<Rightarrow>
          (let content = apply_replacements CATEGORY_REPLACEMENTS original in
           if content \<noteq> original then
             (let content' = add_import_if_needed content filepath in
              case write_text w (str filepath) content' of
                Write_Failed e left \<Rightarrow>
                  (Inl e, w\<lparr>read_text := (read_text w)(str filepath := left),
                            writes := writes w @ [(str filepath, content')]\<rparr>)
              | Written \<Rightarrow>
                  (Inr True, w\<lparr>read_text := (read_text w)(str filepath := Inr content'),
                               writes := writes w @ [(str filepath, content')]\<rparr>))
           else (Inr False, w)))"

text \<open>
  \<^verbatim>\<open>update_file\<close>: the \<^verbatim>\<open>except Exception\<close> clause prints the error and falls through to
  \<^verbatim>\<open>return False\<close>.
\<close>

definition update_file :: "filepath \<Rightarrow> world \<Rightarrow> bool \<times> world" where
  "update_file filepath w =
     (case update_file_try filepath w of
        (Inl e, w') \<Rightarrow>
          (False, w'\<lparr>stdout := stdout w' @ [''Error processing '' @ str filepath @ '': '' @ e]\<rparr>)
      | (Inr b, w') \<Rightarrow> (b, w'))"

text \<open>One of the two loops of \<^verbatim>\<open>main\<close> over the files that \<^verbatim>\<open>rglob\<close> yields.\<close>

fun update_files :: "filepath list \<Rightarrow> nat \<times> world \<Rightarrow> nat \<times> world" where
  "update_files [] (updated, w) = (updated, w)"
| "update_files (filepath # rest) (updated, w) =
     (if should_skip_file filepath then update_files rest (updated, w)
      else (case update_file filepath w of
              (True, w') \<Rightarrow>
                update_files rest
                  (updated + 1, w'\<lparr>stdout := stdout w' @ [''Updated: '' @ str filepath]\<rparr>)
            | (False, w') \<Rightarrow> update_files rest (updated, w')))"

text \<open>The decimal text of a count, as \<^verbatim>\<open>print\<close> formats it.\<close>

fun show_nat :: "nat \<Rightarrow> string" where
  "show_nat n =
     (if n < 10 then [char_of (48 + n)]
      else show_nat (n div 10) @ [char_of (48 + n mod 10)])"

text \<open>
  \<^verbatim>\<open>main\<close>, given the files that the two calls of \<^verbatim>\<open>rglob\<close> yield. The last line printed
  starts with an empty line and a check mark (three bytes in UTF-8).
\<close>

definition main :: "filepath list \<Rightarrow> filepath list \<Rightarrow> world \<Rightarrow> world" where
  "main ts_files tsx_files w =
     (case update_files ts_files (0, w) of
        (updated, w1) \<Rightarrow>
          (case update_files tsx_files (updated, w1) of
             (updated', w2) \<Rightarrow>
               w2\<lparr>stdout := stdout w2 @
                 [[nl, CHR 0xE2, CHR 0x9C, CHR 0x85] @ '' Updated '' @ show_nat updated'
                    @ '' files'']\<rparr>))"

subsection \<open>Notions of the specification\<close>

text \<open>The import statement that goes \<open>n\<close> directory levels up.\<close>

definition import_up :: "nat \<Rightarrow> string" where
  \<open>import_up n = ''import { CATEGORIES } from "'' @ concat (replicate n ''../'')
     @ ''core/constants/categories";'' @ [nl]\<close>

text \<open>
  An occurrence of a word as a token of its own: the character before it and the
  character behind it, where there are any, are no identifier characters. The scan
  carries the character before the current position.
\<close>

definition ident_char :: "char \<Rightarrow> bool" where
  "ident_char c \<longleftrightarrow> c \<in> set (''abcdefghijklmnopqrstuvwxyz'' @ ''ABCDEFGHIJKLMNOPQRSTUVWXYZ''
     @ ''0123456789_$'')"

fun token_scan :: "string \<Rightarrow> char option \<Rightarrow> string \<Rightarrow> bool" where
  "token_scan word before [] = False"
| "token_scan word before (c # cs) =
     ((prefix word (c # cs)
        \<and> (case before of None \<Rightarrow> True | Some b \<Rightarrow> \<not> ident_char b)
        \<and> (case drop (length word) (c # cs) of [] \<Rightarrow> True | d # _ \<Rightarrow> \<not> ident_char d))
      \<or> token_scan word (Some c) cs)"

definition occurs_as_token :: "string \<Rightarrow> string \<Rightarrow> bool" where
  "occurs_as_token word content = token_scan word None content"


subsection \<open>Notions used in the proofs\<close>

text \<open>\<^verbatim>\<open>sep.join(pieces)\<close>, for the pieces between the matches of a pattern.\<close>

fun join_with :: "string \<Rightarrow> string list \<Rightarrow> string" where
  "join_with sep [] = []"
| "join_with sep [g] = g"
| "join_with sep (g # gs) = g @ sep @ join_with sep gs"

text \<open>
  \<open>q\<close> is separated from \<open>r\<close> when no occurrence of \<open>q\<close> can touch an inserted \<open>r\<close>: an
  occurrence in a text around \<open>r\<close> lies wholly before or wholly behind it.
\<close>

definition separated :: "string \<Rightarrow> string \<Rightarrow> bool" where
  "separated q r \<longleftrightarrow> (\<forall>u v. sublist q (u @ r @ v) \<longrightarrow> sublist q u \<or> sublist q v)"

text \<open>
  The shape all patterns of the table share: they hold a double quote, no capital C or S
  and no newline, start with an operator, bracket or parenthesis and end with a quote,
  bracket or parenthesis.
\<close>

definition pattern_shape :: "string \<Rightarrow> bool" where
  "pattern_shape q \<longleftrightarrow> q \<noteq> [] \<and> dq \<in> set q \<and> CHR ''C'' \<notin> set q \<and> CHR ''S'' \<notin> set q
     \<and> nl \<notin> set q \<and> last q \<in> set (dq # '')]'') \<and> hd q \<in> set ''=![(''"

text \<open>
  The shape all replacements share: no double quote and no newline, the constant's name
  inside, nothing that ends a pattern before the first capital C and nothing that starts
  a pattern behind the last capital S.
\<close>

definition replacement_shape :: "string \<Rightarrow> bool" where
  "replacement_shape r \<longleftrightarrow> dq \<notin> set r \<and> nl \<notin> set r \<and> sublist ''CATEGORIES'' r
     \<and> (let rh = takeWhile (\<lambda>c. c \<noteq> CHR ''C'') r
        in rh \<noteq> r \<and> list_all (\<lambda>c. c \<notin> set (dq # '')]'')) rh)
     \<and> (let rt = takeWhile (\<lambda>c. c \<noteq> CHR ''S'') (rev r)
        in rt \<noteq> rev r \<and> list_all (\<lambda>c. c \<notin> set ''=![('') rt)"


section \<open>Lines\<close>

lemma split_nl_not_Nil [simp]: "split_nl s \<noteq> []"
  by (induction s) (auto split: list.splits)

lemma join_nl_Cons: "ls \<noteq> [] \<Longrightarrow> join_nl (l # ls) = l @ nl # join_nl ls"
  by (cases ls) simp_all

lemma join_split_nl [simp]: "join_nl (split_nl s) = s"
proof (induction s)
  case Nil
  show ?case by simp
next
  case (Cons c cs)
  show ?case
  proof (cases "c = nl")
    case True
    with Cons show ?thesis by (simp add: join_nl_Cons)
  next
    case False
    obtain l ls where sp: "split_nl cs = l # ls" by (cases "split_nl cs") simp_all
    with Cons have "join_nl (l # ls) = cs" by simp
    then have "join_nl ((c # l) # ls) = c # cs" by (cases ls) simp_all
    with False sp show ?thesis by simp
  qed
qed

lemma split_nl_free: "nl \<notin> set a \<Longrightarrow> split_nl (a @ b) = (a @ hd (split_nl b)) # tl (split_nl b)"
  by (induction a) (auto split: list.splits)

lemma split_nl_free_alone: "nl \<notin> set a \<Longrightarrow> split_nl a = [a]"
  using split_nl_free [of a "[]"] by simp

lemma split_nl_append_nl: "split_nl (a @ nl # b) = split_nl a @ split_nl b"
  by (induction a) (auto split: list.splits)

lemma split_nl_lines_free: "l \<in> set (split_nl s) \<Longrightarrow> nl \<notin> set l"
  by (induction s arbitrary: l) (auto split: list.splits if_splits)

lemma split_join_nl: "ls \<noteq> [] \<Longrightarrow> \<forall>l\<in>set ls. nl \<notin> set l \<Longrightarrow> split_nl (join_nl ls) = ls"
proof (induction ls rule: join_nl.induct)
  case 1 then show ?case by simp
next
  case (2 l) then show ?case by (simp add: split_nl_free_alone)
next
  case (3 l v va)
  then show ?case by (simp add: split_nl_append_nl split_nl_free_alone)
qed

lemma sublist_join_nl: "l \<in> set ls \<Longrightarrow> sublist l (join_nl ls)"
proof (induction ls rule: join_nl.induct)
  case 1 then show ?case by simp
next
  case (2 l') then show ?case by simp
next
  case (3 l' v va)
  show ?case
  proof (cases "l = l'")
    case True
    then show ?thesis by simp
  next
    case False
    with 3 have "sublist l (join_nl (v # va))" by simp
    then have "sublist l ((l' @ [nl]) @ join_nl (v # va))" by (simp add: sublist_append sublist_Cons_right)
    then show ?thesis by simp
  qed
qed

section \<open>Import insertion\<close>

lemma insert_after_import_Some:
  "insert_after_import stmt ls = Some ls' \<Longrightarrow>
     \<exists>i<length ls. ls' = take (Suc i) ls @ [stmt] @ drop (Suc i) ls \<and> prefix ''import '' (ls ! i)
        \<and> (\<forall>j<i. \<not> prefix ''import '' (ls ! j))"
proof (induction ls arbitrary: ls')
  case Nil
  then show ?case by simp
next
  case (Cons l ls)
  show ?case
  proof (cases "prefix ''import '' l")
    case True
    with Cons.prems have "ls' = l # stmt # ls" by simp
    with True show ?thesis by (intro exI[of _ 0]) simp
  next
    case False
    with Cons.prems obtain t where t: "insert_after_import stmt ls = Some t" "ls' = l # t"
      by auto
    from Cons.IH[OF t(1)] obtain i where i: "i < length ls"
      "t = take (Suc i) ls @ [stmt] @ drop (Suc i) ls" "prefix ''import '' (ls ! i)"
      "\<forall>j<i. \<not> prefix ''import '' (ls ! j)" by blast
    have "\<forall>j<Suc i. \<not> prefix ''import '' ((l # ls) ! j)"
      using False i(4) by (auto simp: nth_Cons split: nat.splits)
    with i t(2) show ?thesis by (intro exI[of _ "Suc i"]) simp
  qed
qed

lemma insert_after_import_None:
  "insert_after_import stmt ls = None \<longleftrightarrow> (\<forall>l\<in>set ls. \<not> prefix ''import '' l)"
  by (induction ls) auto

lemma import_statement_cases:
  "get_import_statement fp = IMPORT_STATEMENT \<or> get_import_statement fp = IMPORT_STATEMENT_NESTED
     \<or> get_import_statement fp = IMPORT_STATEMENT_DEEP"
  by (simp add: get_import_statement_def)

lemma rstrip_import_statement:
  "get_import_statement fp = rstrip (get_import_statement fp) @ [nl]"
  "nl \<notin> set (rstrip (get_import_statement fp))"
  "prefix ''import { CATEGORIES }'' (rstrip (get_import_statement fp))"
  using import_statement_cases [of fp]
  by (auto simp: IMPORT_STATEMENT_def IMPORT_STATEMENT_NESTED_def IMPORT_STATEMENT_DEEP_def
      rstrip_def is_space_def nl_def)

lemma add_import_cases:
  assumes "sublist ''CATEGORIES'' content" "\<not> sublist ''import { CATEGORIES }'' content"
  shows "(\<exists>i<length (split_nl content).
            add_import_if_needed content fp =
              join_nl (take (Suc i) (split_nl content) @ [rstrip (get_import_statement fp)]
                         @ drop (Suc i) (split_nl content))
            \<and> prefix ''import '' (split_nl content ! i)
            \<and> (\<forall>j<i. \<not> prefix ''import '' (split_nl content ! j)))
         \<or> (add_import_if_needed content fp = rstrip (get_import_statement fp) @ nl # content
            \<and> (\<forall>l\<in>set (split_nl content). \<not> prefix ''import '' l))"
proof (cases "insert_after_import (rstrip (get_import_statement fp)) (split_nl content)")
  case None
  then have "add_import_if_needed content fp = get_import_statement fp @ content"
    using assms by (simp add: add_import_if_needed_def)
  also have "\<dots> = rstrip (get_import_statement fp) @ nl # content"
    using rstrip_import_statement(1) [of fp] by (metis append.assoc append_Cons append_Nil)
  finally show ?thesis using None by (simp add: insert_after_import_None)
next
  case (Some ls')
  then have "add_import_if_needed content fp = join_nl ls'"
    using assms by (simp add: add_import_if_needed_def)
  with insert_after_import_Some [OF Some] show ?thesis by auto
qed

lemma add_import_lines_precise:
  assumes "sublist ''CATEGORIES'' content" "\<not> sublist ''import { CATEGORIES }'' content"
  shows "(\<exists>i<length (split_nl content).
            prefix ''import '' (split_nl content ! i)
            \<and> (\<forall>j<i. \<not> prefix ''import '' (split_nl content ! j))
            \<and> split_nl (add_import_if_needed content fp) =
                take (Suc i) (split_nl content) @ [rstrip (get_import_statement fp)]
                  @ drop (Suc i) (split_nl content))
         \<or> ((\<forall>l\<in>set (split_nl content). \<not> prefix ''import '' l)
            \<and> split_nl (add_import_if_needed content fp)
                = rstrip (get_import_statement fp) # split_nl content)"
  using add_import_cases [OF assms, of fp]
proof (elim disjE exE conjE)
  fix i
  assume i: "i < length (split_nl content)"
    and eq: "add_import_if_needed content fp =
              join_nl (take (Suc i) (split_nl content) @ [rstrip (get_import_statement fp)]
                         @ drop (Suc i) (split_nl content))"
    and pre: "prefix ''import '' (split_nl content ! i)"
      "\<forall>j<i. \<not> prefix ''import '' (split_nl content ! j)"
  let ?ls = "take (Suc i) (split_nl content) @ [rstrip (get_import_statement fp)]
                         @ drop (Suc i) (split_nl content)"
  have "\<forall>l\<in>set ?ls. nl \<notin> set l"
    using rstrip_import_statement(2) [of fp] split_nl_lines_free [of _ content]
    by (auto dest: in_set_takeD in_set_dropD)
  then have "split_nl (join_nl ?ls) = ?ls" by (intro split_join_nl) simp_all
  with eq i pre show ?thesis by (intro disjI1 exI[of _ i]) simp
next
  assume eq: "add_import_if_needed content fp = rstrip (get_import_statement fp) @ nl # content"
    and no: "\<forall>l\<in>set (split_nl content). \<not> prefix ''import '' l"
  have "split_nl (rstrip (get_import_statement fp) @ nl # content)
          = rstrip (get_import_statement fp) # split_nl content"
    using rstrip_import_statement(2) [of fp]
    by (simp add: split_nl_append_nl split_nl_free_alone)
  with eq no show ?thesis by simp
qed

lemma add_import_lines:
  assumes "sublist ''CATEGORIES'' content" "\<not> sublist ''import { CATEGORIES }'' content"
  shows "\<exists>i\<le>length (split_nl content).
            split_nl (add_import_if_needed content fp) =
              take i (split_nl content) @ [rstrip (get_import_statement fp)]
                         @ drop i (split_nl content)"
  using add_import_cases [OF assms, of fp]
proof (elim disjE exE conjE)
  fix i
  assume i: "i < length (split_nl content)"
    and eq: "add_import_if_needed content fp =
              join_nl (take (Suc i) (split_nl content) @ [rstrip (get_import_statement fp)]
                         @ drop (Suc i) (split_nl content))"
  let ?ls = "take (Suc i) (split_nl content) @ [rstrip (get_import_statement fp)]
                         @ drop (Suc i) (split_nl content)"
  have "\<forall>l\<in>set ?ls. nl \<notin> set l"
    using rstrip_import_statement(2) [of fp] split_nl_lines_free [of _ content]
    by (auto dest: in_set_takeD in_set_dropD)
  then have "split_nl (join_nl ?ls) = ?ls" by (intro split_join_nl) simp_all
  with eq i show ?thesis by (intro exI[of _ "Suc i"]) simp
next
  assume eq: "add_import_if_needed content fp = rstrip (get_import_statement fp) @ nl # content"
  have "split_nl (rstrip (get_import_statement fp) @ nl # content)
          = rstrip (get_import_statement fp) # split_nl content"
    using rstrip_import_statement(2) [of fp]
    by (simp add: split_nl_append_nl split_nl_free_alone)
  with eq show ?thesis by (intro exI[of _ 0]) simp
qed

lemma add_import_has_import:
  assumes "sublist ''CATEGORIES'' content" "\<not> sublist ''import { CATEGORIES }'' content"
  shows "sublist ''import { CATEGORIES }'' (add_import_if_needed content fp)"
proof -
  have p: "sublist ''import { CATEGORIES }'' (rstrip (get_import_statement fp))"
    using rstrip_import_statement(3) [of fp] by (rule prefix_imp_sublist)
  from add_import_cases [OF assms, of fp] show ?thesis
  proof (elim disjE exE conjE)
    fix i
    assume eq: "add_import_if_needed content fp =
              join_nl (take (Suc i) (split_nl content) @ [rstrip (get_import_statement fp)]
                         @ drop (Suc i) (split_nl content))"
    have "sublist (rstrip (get_import_statement fp)) (add_import_if_needed content fp)"
      unfolding eq by (rule sublist_join_nl) simp
    with p show ?thesis by (rule sublist_order.order_trans)
  next
    assume eq: "add_import_if_needed content fp = rstrip (get_import_statement fp) @ nl # content"
    have "sublist (rstrip (get_import_statement fp)) (add_import_if_needed content fp)"
      unfolding eq by simp
    with p show ?thesis by (rule sublist_order.order_trans)
  qed
qed

lemma add_import_unchanged:
  "\<not> (sublist ''CATEGORIES'' content \<and> \<not> sublist ''import { CATEGORIES }'' content)
     \<Longrightarrow> add_import_if_needed content fp = content"
  by (auto simp: add_import_if_needed_def)

lemma add_import_keeps_lines:
  "set (split_nl content) \<subseteq> set (split_nl (add_import_if_needed content fp))"
proof (cases "sublist ''CATEGORIES'' content \<and> \<not> sublist ''import { CATEGORIES }'' content")
  case True
  from add_import_lines [of content fp] True obtain i where
    "split_nl (add_import_if_needed content fp) =
       take i (split_nl content) @ [rstrip (get_import_statement fp)] @ drop i (split_nl content)"
    by blast
  then have eq: "set (split_nl (add_import_if_needed content fp))
      = set (take i (split_nl content) @ [rstrip (get_import_statement fp)]
               @ drop i (split_nl content))" by simp
  have "set (split_nl content) = set (take i (split_nl content) @ drop i (split_nl content))"
    by (simp only: append_take_drop_id)
  also have "\<dots> \<subseteq> set (take i (split_nl content) @ [rstrip (get_import_statement fp)]
               @ drop i (split_nl content))" by (simp only: set_append) blast
  finally show ?thesis unfolding eq .
next
  case False
  then show ?thesis by (simp add: add_import_unchanged)
qed

section \<open>One substitution\<close>

text \<open>
  A substitution cuts the text into the pieces between the matches and joins them again
  with the replacement; no piece holds the pattern.
\<close>

lemma join_with_Cons: "gs \<noteq> [] \<Longrightarrow> join_with sep (g # gs) = g @ sep @ join_with sep gs"
  by (cases gs) simp_all

lemma join_with_Cons_hd: "join_with sep ((c # g) # gs) = c # join_with sep (g # gs)"
  by (cases gs) simp_all

lemma prefix_join_with: "prefix g (join_with sep (g # gs))"
  by (cases gs) simp_all

lemma sublist_join_with: "g \<in> set gs \<Longrightarrow> sublist g (join_with sep gs)"
proof (induction sep gs rule: join_with.induct)
  case (1 sep) then show ?case by simp
next
  case (2 sep g') then show ?case by simp
next
  case (3 sep g' v va)
  show ?case
  proof (cases "g = g'")
    case True then show ?thesis by simp
  next
    case False
    with 3 have "sublist g (join_with sep (v # va))" by simp
    then have "sublist g ((g' @ sep) @ join_with sep (v # va))"
      by (simp add: sublist_append)
    then show ?thesis by simp
  qed
qed

lemma set_join_with: "set (join_with sep gs) \<subseteq> set sep \<union> \<Union>(set ` set gs)"
  by (induction sep gs rule: join_with.induct) auto

lemma re_sub_absent: "pat \<noteq> [] \<Longrightarrow> \<not> sublist pat s \<Longrightarrow> re_sub pat rep s = s"
  by (induction s) (auto simp: sublist_Cons_right)

lemma prefix_drop_eq: "pat \<noteq> [] \<Longrightarrow> prefix pat (c # cs) \<Longrightarrow> c # cs = pat @ drop (length pat - 1) cs"
  by (cases pat) (auto simp: prefix_def)

lemma re_sub_decomp:
  assumes "pat \<noteq> []"
  shows "\<exists>gs. gs \<noteq> [] \<and> s = join_with pat gs \<and> re_sub pat rep s = join_with rep gs
            \<and> (\<forall>g\<in>set gs. \<not> sublist pat g)"
proof (induction s rule: length_induct)
  case (1 s)
  show ?case
  proof (cases s)
    case Nil
    with assms show ?thesis by (intro exI[of _ "[[]]"]) simp
  next
    case (Cons c cs)
    show ?thesis
    proof (cases "prefix pat (c # cs)")
      case True
      let ?rest = "drop (length pat - 1) cs"
      have s: "s = pat @ ?rest" using True assms Cons by (simp add: prefix_drop_eq)
      have "length ?rest < length s" using Cons by simp
      with 1 obtain gs where gs: "gs \<noteq> []" "?rest = join_with pat gs"
        "re_sub pat rep ?rest = join_with rep gs" "\<forall>g\<in>set gs. \<not> sublist pat g" by blast
      have "s = join_with pat ([] # gs)" using s gs(1,2) by (simp add: join_with_Cons)
      moreover have "re_sub pat rep s = join_with rep ([] # gs)"
        using True assms Cons gs(1,3) by (simp add: join_with_Cons)
      moreover have "\<forall>g\<in>set ([] # gs). \<not> sublist pat g" using gs(4) assms by simp
      ultimately show ?thesis by blast
    next
      case False
      have "length cs < length s" using Cons by simp
      with 1 obtain gs where gs: "gs \<noteq> []" "cs = join_with pat gs"
        "re_sub pat rep cs = join_with rep gs" "\<forall>g\<in>set gs. \<not> sublist pat g" by blast
      then obtain g gs' where g: "gs = g # gs'" by (cases gs) simp_all
      have "s = join_with pat ((c # g) # gs')" using Cons gs(2) g by (simp add: join_with_Cons_hd)
      moreover have "re_sub pat rep s = join_with rep ((c # g) # gs')"
        using False assms Cons gs(3) g by (simp add: join_with_Cons_hd)
      moreover have "\<not> sublist pat (c # g)"
      proof
        assume "sublist pat (c # g)"
        then have "prefix pat (c # g)" using gs(4) g by (simp add: sublist_Cons_right)
        moreover have "prefix (c # g) (c # cs)" using gs(2) g prefix_join_with by simp
        ultimately show False using False by (meson prefix_order.order_trans)
      qed
      ultimately show ?thesis using gs(4) g by (intro exI[of _ "(c # g) # gs'"]) simp
    qed
  qed
qed

lemma absent_join_with:
  assumes "separated q r" "q \<noteq> []"
  shows "\<forall>g\<in>set gs. \<not> sublist q g \<Longrightarrow> \<not> sublist q (join_with r gs)"
proof (induction gs)
  case Nil
  then show ?case using assms(2) by simp
next
  case (Cons g gs)
  show ?case
  proof (cases "gs = []")
    case True
    with Cons.prems show ?thesis by simp
  next
    case False
    then have eq: "join_with r (g # gs) = g @ r @ join_with r gs" by (rule join_with_Cons)
    have "\<not> sublist q g" "\<not> sublist q (join_with r gs)" using Cons by simp_all
    with assms(1) show ?thesis unfolding eq separated_def by blast
  qed
qed

lemma re_sub_removes:
  assumes "separated pat rep" "pat \<noteq> []"
  shows "\<not> sublist pat (re_sub pat rep s)"
proof -
  from re_sub_decomp [OF assms(2), of s rep] obtain gs where
    gs: "re_sub pat rep s = join_with rep gs" "\<forall>g\<in>set gs. \<not> sublist pat g" by blast
  show ?thesis unfolding gs(1) using assms gs(2) by (rule absent_join_with)
qed

lemma re_sub_keeps_absent:
  assumes "separated q rep" "q \<noteq> []" "pat \<noteq> []" "\<not> sublist q s"
  shows "\<not> sublist q (re_sub pat rep s)"
proof -
  from re_sub_decomp [OF assms(3), of s rep] obtain gs where
    gs: "s = join_with pat gs" "re_sub pat rep s = join_with rep gs" by blast
  have "\<forall>g\<in>set gs. \<not> sublist q g"
  proof
    fix g assume "g \<in> set gs"
    then have "sublist g s" unfolding gs(1) by (rule sublist_join_with)
    with assms(4) show "\<not> sublist q g" by (meson sublist_order.order_trans)
  qed
  with assms(1,2) show ?thesis unfolding gs(2) by (rule absent_join_with)
qed

lemma re_sub_changed_has_rep:
  assumes "pat \<noteq> []" "re_sub pat rep s \<noteq> s"
  shows "sublist rep (re_sub pat rep s)"
proof -
  from re_sub_decomp [OF assms(1), of s rep] obtain gs where
    gs: "gs \<noteq> []" "s = join_with pat gs" "re_sub pat rep s = join_with rep gs" by blast
  show ?thesis
  proof (cases gs)
    case Nil
    with gs(1) show ?thesis by simp
  next
    case (Cons g gs')
    show ?thesis
    proof (cases "gs' = []")
      case True
      with Cons gs(2,3) assms(2) show ?thesis by simp
    next
      case False
      with Cons gs(3) have "re_sub pat rep s = g @ rep @ join_with rep gs'"
        by (simp add: join_with_Cons)
      then show ?thesis by simp
    qed
  qed
qed

lemma re_sub_no_nl:
  assumes "pat \<noteq> []" "nl \<notin> set rep" "nl \<notin> set s"
  shows "nl \<notin> set (re_sub pat rep s)"
proof -
  from re_sub_decomp [OF assms(1), of s rep] obtain gs where
    gs: "s = join_with pat gs" "re_sub pat rep s = join_with rep gs" by blast
  have "\<forall>g\<in>set gs. nl \<notin> set g"
  proof
    fix g assume "g \<in> set gs"
    then have "sublist g s" unfolding gs(1) by (rule sublist_join_with)
    then have "set g \<subseteq> set s" by (rule set_mono_sublist)
    with assms(3) show "nl \<notin> set g" by auto
  qed
  with assms(2) set_join_with [of rep gs] show ?thesis unfolding gs(2) by auto
qed

subsection \<open>Occurrences next to other text\<close>

lemma sublist_skip_char:
  assumes "c \<notin> set q" "sublist q (x @ c # y)"
  shows "sublist q x \<or> sublist q y"
proof (cases "q = []")
  case True then show ?thesis by simp
next
  case False
  from assms(2) consider "sublist q x" | "sublist q (c # y)"
    | q1 q2 where "q = q1 @ q2" "suffix q1 x" "prefix q2 (c # y)"
    by (auto simp: sublist_append)
  then show ?thesis
  proof cases
    case 1 then show ?thesis by simp
  next
    case 2
    then have "prefix q (c # y) \<or> sublist q y" by (simp add: sublist_Cons_right)
    moreover have "\<not> prefix q (c # y)"
      using False assms(1) by (cases q) auto
    ultimately show ?thesis by simp
  next
    case 3
    show ?thesis
    proof (cases "q2 = []")
      case True
      with 3 show ?thesis by auto
    next
      case q2: False
      with 3(3) have "c \<in> set q2" by (cases q2) auto
      with 3(1) assms(1) show ?thesis by simp
    qed
  qed
qed

lemma sublist_drop_right:
  assumes "q \<noteq> []" "last q \<notin> set h" "sublist q (u @ h)"
  shows "sublist q u"
proof -
  from assms(3) consider "sublist q u" | "sublist q h"
    | q1 q2 where "q = q1 @ q2" "suffix q1 u" "prefix q2 h"
    by (auto simp: sublist_append)
  then show ?thesis
  proof cases
    case 1 then show ?thesis .
  next
    case 2
    then have "set q \<subseteq> set h" by (rule set_mono_sublist)
    with assms(1,2) show ?thesis using last_in_set by blast
  next
    case 3
    show ?thesis
    proof (cases "q2 = []")
      case True
      with 3 show ?thesis by auto
    next
      case False
      then have "last q = last q2" "last q2 \<in> set q2" using 3(1) by simp_all
      moreover have "set q2 \<subseteq> set h" using 3(3) by (rule set_mono_prefix)
      ultimately show ?thesis using assms(2) by auto
    qed
  qed
qed

lemma sublist_drop_left:
  assumes "q \<noteq> []" "hd q \<notin> set t" "sublist q (t @ v)"
  shows "sublist q v"
proof -
  from assms(3) consider "sublist q t" | "sublist q v"
    | q1 q2 where "q = q1 @ q2" "suffix q1 t" "prefix q2 v"
    by (auto simp: sublist_append)
  then show ?thesis
  proof cases
    case 1
    then have "set q \<subseteq> set t" by (rule set_mono_sublist)
    with assms(1,2) show ?thesis using hd_in_set by blast
  next
    case 2 then show ?thesis .
  next
    case 3
    show ?thesis
    proof (cases "q1 = []")
      case True
      with 3 show ?thesis by auto
    next
      case False
      then have "hd q = hd q1" "hd q1 \<in> set q1" using 3(1) by simp_all
      moreover have "set q1 \<subseteq> set t" using 3(2) by (rule set_mono_suffix)
      ultimately show ?thesis using assms(2) by auto
    qed
  qed
qed

lemma separatedI:
  assumes q: "q \<noteq> []" and x: "x \<in> set q" "x \<notin> set r"
    and left: "r = rh @ c # m" "c \<notin> set q" "last q \<notin> set rh"
    and right: "r = m' @ c' # rt" "c' \<notin> set q" "hd q \<notin> set rt"
  shows "separated q r"
  unfolding separated_def
proof (intro allI impI)
  fix u v
  assume "sublist q (u @ r @ v)"
  then have "sublist q ((u @ rh) @ c # (m @ v))" using left(1) by simp
  then have "sublist q (u @ rh) \<or> sublist q (m @ v)" using left(2) by (rule sublist_skip_char[rotated])
  then show "sublist q u \<or> sublist q v"
  proof
    assume "sublist q (u @ rh)"
    with q left(3) show ?thesis by (simp add: sublist_drop_right)
  next
    assume mv: "sublist q (m @ v)"
    have "suffix m r" unfolding left(1) suffix_def by (intro exI[of _ "rh @ [c]"]) simp
    moreover have "suffix (c' # rt) r" unfolding right(1) suffix_def by blast
    ultimately consider "suffix (c' # rt) m" | "suffix m rt"
      by (metis suffix_same_cases suffix_Cons suffix_order.order_refl)
    then show ?thesis
    proof cases
      case 1
      then obtain m'' where m: "m = m'' @ c' # rt" by (auto simp: suffix_def)
      with mv have "sublist q (m'' @ c' # (rt @ v))" by simp
      then have "sublist q m'' \<or> sublist q (rt @ v)" using right(2) by (rule sublist_skip_char[rotated])
      moreover have "\<not> sublist q m''"
      proof
        assume "sublist q m''"
        then have "set q \<subseteq> set m''" by (rule set_mono_sublist)
        with x m left(1) show False by auto
      qed
      ultimately show ?thesis using q right(3) by (auto dest: sublist_drop_left)
    next
      case 2
      then have "set m \<subseteq> set rt" by (rule set_mono_suffix)
      with right(3) have "hd q \<notin> set m" by auto
      with q mv show ?thesis by (auto dest: sublist_drop_left)
    qed
  qed
qed

lemma split_at_first:
  assumes "takeWhile (\<lambda>c. c \<noteq> a) r \<noteq> r"
  shows "\<exists>m. r = takeWhile (\<lambda>c. c \<noteq> a) r @ a # m"
proof -
  let ?d = "dropWhile (\<lambda>c. c \<noteq> a) r"
  have id: "takeWhile (\<lambda>c. c \<noteq> a) r @ ?d = r" by simp
  have ne: "?d \<noteq> []"
  proof
    assume "?d = []"
    with id have "takeWhile (\<lambda>c. c \<noteq> a) r = r" by simp
    with assms show False by simp
  qed
  from hd_dropWhile [OF ne] have "hd ?d = a" by simp
  with ne have "?d = a # tl ?d" by (cases ?d) simp_all
  with id have "r = takeWhile (\<lambda>c. c \<noteq> a) r @ a # tl ?d" by simp
  then show ?thesis ..
qed

lemma shapes_separated:
  assumes "pattern_shape q" "replacement_shape r"
  shows "separated q r"
proof -
  let ?rh = "takeWhile (\<lambda>c. c \<noteq> CHR ''C'') r"
  let ?rt = "takeWhile (\<lambda>c. c \<noteq> CHR ''S'') (rev r)"
  from assms(2) have rh: "?rh \<noteq> r" "\<forall>c\<in>set ?rh. c \<notin> set (dq # '')]'')"
    and rt: "?rt \<noteq> rev r" "\<forall>c\<in>set ?rt. c \<notin> set ''=![(''"
    and x: "dq \<notin> set r"
    by (simp_all add: replacement_shape_def Let_def list_all_iff)
  from split_at_first [OF rh(1)] obtain m where m: "r = ?rh @ CHR ''C'' # m" by blast
  from split_at_first [OF rt(1)] obtain m2 where "rev r = ?rt @ CHR ''S'' # m2" by blast
  then have "rev (rev r) = rev (?rt @ CHR ''S'' # m2)" by simp
  then have m2: "r = rev m2 @ CHR ''S'' # rev ?rt" by simp
  from assms(1) have q: "q \<noteq> []" "dq \<in> set q" "CHR ''C'' \<notin> set q" "CHR ''S'' \<notin> set q"
    "last q \<in> set (dq # '')]'')" "hd q \<in> set ''=![(''"
    by (simp_all add: pattern_shape_def)
  have l: "last q \<notin> set ?rh" using rh(2) q(5) by blast
  have h: "hd q \<notin> set (rev ?rt)" using rt(2) q(6) by auto
  show ?thesis by (rule separatedI [OF q(1) q(2) x m q(3) l m2 q(4) h])
qed

lemma re_sub_prefix_kept:
  "pat \<noteq> [] \<Longrightarrow> hd pat \<notin> set w \<Longrightarrow> prefix w s \<Longrightarrow> prefix w (re_sub pat rep s)"
proof (induction w arbitrary: s)
  case Nil
  then show ?case by simp
next
  case (Cons a w)
  from Cons.prems(3) obtain s' where s: "s = a # s'" "prefix w s'"
    by (cases s) auto
  have "\<not> prefix pat (a # s')" using Cons.prems(1,2) by (cases pat) auto
  with Cons s show ?case by simp
qed

lemma re_sub_keeps_word:
  assumes "pat \<noteq> []" "w \<noteq> []" "hd pat \<notin> set w" "hd w \<notin> set pat"
  shows "sublist w s \<Longrightarrow> sublist w (re_sub pat rep s)"
proof (induction s rule: length_induct)
  case (1 s)
  from "1.prems" assms(2) obtain c cs where s: "s = c # cs" by (cases s) auto
  show ?case
  proof (cases "prefix pat (c # cs)")
    case True
    let ?rest = "drop (length pat - 1) cs"
    have eq: "s = pat @ ?rest" using True assms(1) s by (simp add: prefix_drop_eq)
    with "1.prems" have "sublist w (pat @ ?rest)" by simp
    with assms(2,4) have "sublist w ?rest" by (rule sublist_drop_left)
    moreover have "length ?rest < length s" using s by simp
    ultimately have "sublist w (re_sub pat rep ?rest)" using "1.IH" by blast
    then have "sublist w (rep @ re_sub pat rep ?rest)" by (simp add: sublist_append)
    with True assms(1) s show ?thesis by simp
  next
    case False
    from "1.prems" s consider "prefix w (c # cs)" | "sublist w cs"
      by (auto simp: sublist_Cons_right)
    then show ?thesis
    proof cases
      case 1
      with assms(1,3) have "prefix w (re_sub pat rep (c # cs))" by (rule re_sub_prefix_kept)
      with s show ?thesis by auto
    next
      case 2
      then have "sublist w (re_sub pat rep cs)" using "1.IH" s by simp
      with False assms(1) s show ?thesis by (simp add: sublist_Cons_right)
    qed
  qed
qed

lemma prefix_before_char:
  assumes "a \<notin> set p"
  shows "prefix p (x @ a # y) \<longleftrightarrow> prefix p x"
proof
  assume "prefix p (x @ a # y)"
  then consider "prefix p x" | us where "p = x @ us" "prefix us (a # y)"
    by (auto simp: prefix_append)
  then show "prefix p x"
  proof cases
    case 1 then show ?thesis .
  next
    case 2
    with assms have "us = []" by (cases us) auto
    with 2 show ?thesis by simp
  qed
next
  assume "prefix p x"
  then show "prefix p (x @ a # y)" by (rule prefix_prefix)
qed

lemma re_sub_line_split:
  assumes "pat \<noteq> []" "nl \<notin> set pat"
  shows "re_sub pat rep (x @ nl # y) = re_sub pat rep x @ nl # re_sub pat rep y"
proof (induction x rule: length_induct)
  case (1 x)
  show ?case
  proof (cases x)
    case Nil
    have "\<not> prefix pat (nl # y)" using assms by (cases pat) auto
    with Nil assms(1) show ?thesis by simp
  next
    case (Cons c cs)
    have pre: "prefix pat (c # cs @ nl # y) \<longleftrightarrow> prefix pat (c # cs)"
      using prefix_before_char [OF assms(2), of "c # cs" y] by simp
    show ?thesis
    proof (cases "prefix pat (c # cs)")
      case True
      then have "length pat \<le> Suc (length cs)" by (auto dest: prefix_length_le)
      then have d: "drop (length pat - 1) (cs @ nl # y) = drop (length pat - 1) cs @ nl # y"
        using assms(1) by (cases pat) auto
      have "length (drop (length pat - 1) cs) < length x" using Cons by simp
      with 1 have "re_sub pat rep (drop (length pat - 1) cs @ nl # y)
          = re_sub pat rep (drop (length pat - 1) cs) @ nl # re_sub pat rep y" by blast
      with True pre d assms(1) Cons show ?thesis by simp
    next
      case False
      have "length cs < length x" using Cons by simp
      with 1 have "re_sub pat rep (cs @ nl # y) = re_sub pat rep cs @ nl # re_sub pat rep y"
        by blast
      with False pre assms(1) Cons show ?thesis by simp
    qed
  qed
qed







section \<open>The table\<close>

lemma table_shapes_all:
  "list_all (\<lambda>(q, r). pattern_shape q \<and> replacement_shape r) CATEGORY_REPLACEMENTS"
  by code_simp

lemma table_shapes:
  "(q, r) \<in> set CATEGORY_REPLACEMENTS \<Longrightarrow> pattern_shape q \<and> replacement_shape r"
  using table_shapes_all by (auto simp: list_all_iff)


lemma table_word:
  assumes "(p, r) \<in> set CATEGORY_REPLACEMENTS"
  shows "p \<noteq> [] \<and> hd p \<notin> set ''CATEGORIES'' \<and> hd ''CATEGORIES'' \<notin> set p
           \<and> sublist ''CATEGORIES'' r"
proof -
  from table_shapes [OF assms] have "pattern_shape p" "replacement_shape r" by simp_all
  then show ?thesis by (auto simp: pattern_shape_def replacement_shape_def)
qed

lemma table_nl:
  assumes "(p, r) \<in> set CATEGORY_REPLACEMENTS"
  shows "p \<noteq> [] \<and> nl \<notin> set p \<and> nl \<notin> set r"
proof -
  from table_shapes [OF assms] have "pattern_shape p" "replacement_shape r" by simp_all
  then show ?thesis by (simp add: pattern_shape_def replacement_shape_def)
qed




section \<open>The whole rewrite\<close>

lemma apply_replacements_snoc:
  "apply_replacements (rs @ [(p, r)]) s = re_sub p r (apply_replacements rs s)"
  by (simp add: apply_replacements_def)

lemma apply_replacements_Cons:
  "apply_replacements ((p, r) # rs) s = apply_replacements rs (re_sub p r s)"
  by (simp add: apply_replacements_def)

lemma apply_replacements_Nil: "apply_replacements [] s = s"
  by (simp add: apply_replacements_def)

lemma apply_absent:
  assumes "\<forall>(q, r)\<in>set rs. pattern_shape q \<and> replacement_shape r" "(q, r0) \<in> set rs"
  shows "\<not> sublist q (apply_replacements rs s)"
  using assms
proof (induction rs rule: rev_induct)
  case Nil
  then show ?case by simp
next
  case (snoc pr rs)
  obtain p r where pr: "pr = (p, r)" by (cases pr)
  from snoc.prems(1) pr have shp: "pattern_shape p" "replacement_shape r"
    and rest: "\<forall>(q, r)\<in>set rs. pattern_shape q \<and> replacement_shape r" by auto
  from snoc.prems have q: "pattern_shape q" by auto
  have sep: "separated q r" using q shp(2) by (rule shapes_separated)
  have ne: "q \<noteq> []" "p \<noteq> []" using q shp(1) by (simp_all add: pattern_shape_def)
  show ?case
  proof (cases "q = p")
    case True
    then show ?thesis unfolding pr apply_replacements_snoc using sep ne
      by (simp add: re_sub_removes)
  next
    case False
    with snoc.prems(2) pr have "(q, r0) \<in> set rs" by auto
    with snoc.IH rest have "\<not> sublist q (apply_replacements rs s)" by blast
    then show ?thesis unfolding pr apply_replacements_snoc using sep ne
      by (simp add: re_sub_keeps_absent)
  qed
qed

lemma apply_id:
  "\<forall>(p, r)\<in>set rs. p \<noteq> [] \<and> \<not> sublist p s \<Longrightarrow> apply_replacements rs s = s"
proof (induction rs)
  case Nil
  then show ?case by (simp add: apply_replacements_Nil)
next
  case (Cons pr rs)
  obtain p r where pr: "pr = (p, r)" by (cases pr)
  with Cons.prems have "re_sub p r s = s" by (simp add: re_sub_absent)
  with Cons pr show ?case by (simp add: apply_replacements_Cons)
qed


lemma apply_keeps_word:
  assumes "w \<noteq> []"
  shows "\<forall>(p, r)\<in>set rs. p \<noteq> [] \<and> hd p \<notin> set w \<and> hd w \<notin> set p \<Longrightarrow> sublist w s
           \<Longrightarrow> sublist w (apply_replacements rs s)"
proof (induction rs arbitrary: s)
  case Nil
  then show ?case by (simp add: apply_replacements_Nil)
next
  case (Cons pr rs)
  obtain p r where pr: "pr = (p, r)" by (cases pr)
  with Cons.prems assms have "sublist w (re_sub p r s)" by (simp add: re_sub_keeps_word)
  with Cons pr show ?case by (simp add: apply_replacements_Cons)
qed

lemma apply_changed_has_word:
  assumes "w \<noteq> []"
  shows "\<forall>(p, r)\<in>set rs. p \<noteq> [] \<and> hd p \<notin> set w \<and> hd w \<notin> set p \<and> sublist w r
           \<Longrightarrow> apply_replacements rs s \<noteq> s \<Longrightarrow> sublist w (apply_replacements rs s)"
proof (induction rs arbitrary: s)
  case Nil
  then show ?case by (simp add: apply_replacements_Nil)
next
  case (Cons pr rs)
  obtain p r where pr: "pr = (p, r)" by (cases pr)
  from Cons.prems(1) pr have p: "p \<noteq> []" "sublist w r"
    and rest: "\<forall>(p, r)\<in>set rs. p \<noteq> [] \<and> hd p \<notin> set w \<and> hd w \<notin> set p \<and> sublist w r"
    by auto
  from rest have rest': "\<forall>(p, r)\<in>set rs. p \<noteq> [] \<and> hd p \<notin> set w \<and> hd w \<notin> set p" by auto
  show ?case
  proof (cases "re_sub p r s = s")
    case True
    with Cons.prems(2) pr have "apply_replacements rs s \<noteq> s" by (simp add: apply_replacements_Cons)
    with Cons.IH rest have "sublist w (apply_replacements rs s)" by blast
    with True pr show ?thesis by (simp add: apply_replacements_Cons)
  next
    case False
    with p(1) have "sublist r (re_sub p r s)" by (rule re_sub_changed_has_rep)
    with p(2) have "sublist w (re_sub p r s)" by (rule sublist_order.order_trans)
    with assms rest' have "sublist w (apply_replacements rs (re_sub p r s))"
      by (intro apply_keeps_word)
    with pr show ?thesis by (simp add: apply_replacements_Cons)
  qed
qed

lemma changed_has_constant:
  assumes "apply_replacements CATEGORY_REPLACEMENTS content \<noteq> content"
  shows "sublist ''CATEGORIES'' (apply_replacements CATEGORY_REPLACEMENTS content)"
proof -
  have "\<forall>(p, r)\<in>set CATEGORY_REPLACEMENTS.
      p \<noteq> [] \<and> hd p \<notin> set ''CATEGORIES'' \<and> hd ''CATEGORIES'' \<notin> set p \<and> sublist ''CATEGORIES'' r"
    using table_word by blast
  with assms show ?thesis by (intro apply_changed_has_word) simp_all
qed

lemma apply_line_split:
  "\<forall>(p, r)\<in>set rs. p \<noteq> [] \<and> nl \<notin> set p \<Longrightarrow>
     apply_replacements rs (x @ nl # y) = apply_replacements rs x @ nl # apply_replacements rs y"
proof (induction rs arbitrary: x y)
  case Nil
  then show ?case by (simp add: apply_replacements_Nil)
next
  case (Cons pr rs)
  obtain p r where pr: "pr = (p, r)" by (cases pr)
  with Cons.prems have "re_sub p r (x @ nl # y) = re_sub p r x @ nl # re_sub p r y"
    by (simp add: re_sub_line_split)
  with Cons pr show ?case by (simp add: apply_replacements_Cons)
qed

lemma apply_join_nl:
  assumes "\<forall>(p, r)\<in>set rs. p \<noteq> [] \<and> nl \<notin> set p"
  shows "ls \<noteq> [] \<Longrightarrow> apply_replacements rs (join_nl ls) = join_nl (map (apply_replacements rs) ls)"
proof (induction ls rule: join_nl.induct)
  case 1 then show ?case by simp
next
  case (2 l) then show ?case by simp
next
  case (3 l v va)
  then show ?case using assms by (simp add: apply_line_split)
qed

lemma apply_no_nl:
  "\<forall>(p, r)\<in>set rs. p \<noteq> [] \<and> nl \<notin> set r \<Longrightarrow> nl \<notin> set s
     \<Longrightarrow> nl \<notin> set (apply_replacements rs s)"
proof (induction rs arbitrary: s)
  case Nil
  then show ?case by (simp add: apply_replacements_Nil)
next
  case (Cons pr rs)
  obtain p r where pr: "pr = (p, r)" by (cases pr)
  with Cons.prems have "nl \<notin> set (re_sub p r s)" by (simp add: re_sub_no_nl)
  with Cons pr show ?case by (simp add: apply_replacements_Cons)
qed

lemma rewrite_lines:
  "split_nl (apply_replacements CATEGORY_REPLACEMENTS content)
     = map (apply_replacements CATEGORY_REPLACEMENTS) (split_nl content)"
proof -
  let ?f = "apply_replacements CATEGORY_REPLACEMENTS"
  have a: "\<forall>(p, r)\<in>set CATEGORY_REPLACEMENTS. p \<noteq> [] \<and> nl \<notin> set p" using table_nl by blast
  have b: "\<forall>(p, r)\<in>set CATEGORY_REPLACEMENTS. p \<noteq> [] \<and> nl \<notin> set r" using table_nl by blast
  have "?f (join_nl (split_nl content)) = join_nl (map ?f (split_nl content))"
    using a by (rule apply_join_nl) simp
  then have "?f content = join_nl (map ?f (split_nl content))" by simp
  moreover have "split_nl (join_nl (map ?f (split_nl content))) = map ?f (split_nl content)"
  proof (rule split_join_nl)
    show "map ?f (split_nl content) \<noteq> []" by simp
    show "\<forall>l\<in>set (map ?f (split_nl content)). nl \<notin> set l"
    proof
      fix l assume "l \<in> set (map ?f (split_nl content))"
      then obtain l' where l': "l' \<in> set (split_nl content)" "l = ?f l'" by auto
      from l'(1) have "nl \<notin> set l'" by (rule split_nl_lines_free)
      with b show "nl \<notin> set l" unfolding l'(2) by (rule apply_no_nl)
    qed
  qed
  ultimately show ?thesis by simp
qed


lemma rewrite_present:
  assumes "(p, r) \<in> set CATEGORY_REPLACEMENTS" "sublist p content"
  shows "snd (rewrite content)"
proof -
  have "\<not> sublist p (apply_replacements CATEGORY_REPLACEMENTS content)"
    using table_shapes assms(1) by (intro apply_absent[where ?r0.0 = r]) auto
  with assms(2) have "apply_replacements CATEGORY_REPLACEMENTS content \<noteq> content" by auto
  then show ?thesis by (simp add: rewrite_def Let_def)
qed

lemma scenario_line:
  \<open>apply_replacements CATEGORY_REPLACEMENTS ''if (item.category === "protein") return true;''
     = ''if (item.category === CATEGORIES.protein) return true;''\<close>
  by code_simp

section \<open>The claims\<close>

text \<open>
  C1: the rewrite step is idempotent. For every content, applying the whole table to the
  output of a first application changes nothing: the second pass returns the same text
  and reports that nothing changed.
\<close>

theorem rewrite_idempotent:
  "rewrite (fst (rewrite content)) = (fst (rewrite content), False)"
proof -
  let ?t = "apply_replacements CATEGORY_REPLACEMENTS content"
  have "\<forall>(p, r)\<in>set CATEGORY_REPLACEMENTS. p \<noteq> [] \<and> \<not> sublist p ?t"
  proof (clarify, rule conjI)
    fix p r assume pr: "(p, r) \<in> set CATEGORY_REPLACEMENTS"
    then show "p \<noteq> []" using table_shapes by (auto simp: pattern_shape_def)
    show "\<not> sublist p ?t" using table_shapes pr by (intro apply_absent[where ?r0.0 = r]) auto
  qed
  then have "apply_replacements CATEGORY_REPLACEMENTS ?t = ?t" by (rule apply_id)
  then show ?thesis by (simp add: rewrite_def Let_def)
qed

theorem rewrite_idempotent_witness:
  \<open>rewrite ''if (x !== CATEGORIES.dairy) f(CATEGORIES.fats);''
     = (''if (x !== CATEGORIES.dairy) f(CATEGORIES.fats);'', False)\<close>
proof -
  have e: \<open>fst (rewrite ''if (x !== "dairy") f("fats");'')
            = ''if (x !== CATEGORIES.dairy) f(CATEGORIES.fats);''\<close> by code_simp
  from rewrite_idempotent [of \<open>''if (x !== "dairy") f("fats");''\<close>] show ?thesis
    unfolding e .
qed

text \<open>
  C2, as the script behaves: for every content with the line
  \<^verbatim>\<open>if (item.category === "protein") return true;\<close> the rewrite reports a change, the lines
  of its output are the rewritten lines of the input, and the line
  \<^verbatim>\<open>if (item.category === CATEGORIES.protein) return true;\<close> is a line of the final text.
  When the rewritten text holds \<^verbatim>\<open>import { CATEGORIES }\<close> nothing is inserted; otherwise
  the import line is inserted directly behind the first line that starts with
  \<^verbatim>\<open>import \<close>, or put at the very top when no line does.
\<close>

theorem scenario_a_first_import:
  assumes \<open>''if (item.category === "protein") return true;'' \<in> set (split_nl content)\<close>
  shows "snd (rewrite content)
    \<and> split_nl (fst (rewrite content)) = map (\<lambda>l. fst (rewrite l)) (split_nl content)
    \<and> ''if (item.category === CATEGORIES.protein) return true;''
         \<in> set (split_nl (add_import_if_needed (fst (rewrite content)) fp))
    \<and> (sublist ''import { CATEGORIES }'' (fst (rewrite content)) \<longrightarrow>
          add_import_if_needed (fst (rewrite content)) fp = fst (rewrite content))
    \<and> (\<not> sublist ''import { CATEGORIES }'' (fst (rewrite content)) \<longrightarrow>
         (let ls = split_nl (fst (rewrite content));
              ls' = split_nl (add_import_if_needed (fst (rewrite content)) fp);
              stmt = rstrip (get_import_statement fp)
          in (\<exists>i<length ls. prefix ''import '' (ls ! i) \<and> (\<forall>j<i. \<not> prefix ''import '' (ls ! j))
                \<and> ls' = take (Suc i) ls @ [stmt] @ drop (Suc i) ls)
             \<or> ((\<forall>l\<in>set ls. \<not> prefix ''import '' l) \<and> ls' = stmt # ls)))"
proof -
  let ?f = "apply_replacements CATEGORY_REPLACEMENTS"
  let ?in = \<open>''if (item.category === "protein") return true;''\<close>
  let ?out = "''if (item.category === CATEGORIES.protein) return true;''"
  let ?c = "fst (rewrite content)"
  have c: "?c = ?f content" by (simp add: rewrite_def Let_def)
  have f: "\<And>l. fst (rewrite l) = ?f l" by (simp add: rewrite_def Let_def)
  have lines: "split_nl ?c = map (\<lambda>l. fst (rewrite l)) (split_nl content)"
    unfolding f c by (rule rewrite_lines)
  from assms have "?f ?in \<in> ?f ` set (split_nl content)" by (rule imageI)
  then have "?out \<in> ?f ` set (split_nl content)" by (simp only: scenario_line)
  then have out: "?out \<in> set (split_nl ?c)" by (simp only: c rewrite_lines set_map)
  then have out': "?out \<in> set (split_nl (add_import_if_needed ?c fp))"
    using add_import_keeps_lines by blast
  have \<open>sublist ''=== "protein"'' ?in\<close> by code_simp
  moreover have "sublist ?in content"
    using sublist_join_nl [OF assms] by (simp only: join_split_nl)
  ultimately have \<open>sublist ''=== "protein"'' content\<close> by (rule sublist_order.order_trans)
  moreover have \<open>(''=== "protein"'', ''=== CATEGORIES.protein'') \<in> set CATEGORY_REPLACEMENTS\<close>
    by (simp add: CATEGORY_REPLACEMENTS_def)
  ultimately have changed: "snd (rewrite content)" by (rule rewrite_present[rotated])
  then have "?f content \<noteq> content" by (simp add: rewrite_def Let_def)
  then have cat: "sublist ''CATEGORIES'' ?c" unfolding c by (rule changed_has_constant)
  have pos: "\<not> sublist ''import { CATEGORIES }'' ?c \<Longrightarrow>
         (let ls = split_nl ?c; ls' = split_nl (add_import_if_needed ?c fp);
              stmt = rstrip (get_import_statement fp)
          in (\<exists>i<length ls. prefix ''import '' (ls ! i) \<and> (\<forall>j<i. \<not> prefix ''import '' (ls ! j))
                \<and> ls' = take (Suc i) ls @ [stmt] @ drop (Suc i) ls)
             \<or> ((\<forall>l\<in>set ls. \<not> prefix ''import '' l) \<and> ls' = stmt # ls))"
    unfolding Let_def using cat by (rule add_import_lines_precise)
  have same: "sublist ''import { CATEGORIES }'' ?c \<Longrightarrow> add_import_if_needed ?c fp = ?c"
    by (simp add: add_import_unchanged)
  from changed lines out' same pos show ?thesis by blast
qed

theorem scenario_a_first_import_witness:
  \<open>snd (rewrite (join_nl [''import a from "a";'', ''if (item.category === "protein") return true;'']))
   \<and> ''if (item.category === CATEGORIES.protein) return true;''
        \<in> set (split_nl (add_import_if_needed
             (fst (rewrite (join_nl [''import a from "a";'',
                ''if (item.category === "protein") return true;''])))
             \<lparr>parts = [''src'', ''a.ts''], str = ''src/a.ts''\<rparr>))\<close>
proof -
  have h: \<open>''if (item.category === "protein") return true;''
      \<in> set (split_nl (join_nl [''import a from "a";'',
                ''if (item.category === "protein") return true;'']))\<close>
    by code_simp
  from scenario_a_first_import [OF h, of "\<lparr>parts = [''src'', ''a.ts''], str = ''src/a.ts''\<rparr>"]
  show ?thesis by blast
qed

text \<open>
  The claim C2 as stated places the import behind the last import line. With two import
  lines the script puts it between them, behind the first, and not behind the second.
\<close>

theorem scenario_a_last_import_counterexample:
  \<open>split_nl (add_import_if_needed
      (fst (rewrite (join_nl [''import a from "a";'', ''import b from "b";'',
                              ''if (item.category === "protein") return true;''])))
      \<lparr>parts = [''src'', ''a.ts''], str = ''src/a.ts''\<rparr>)
    = [''import a from "a";'',
       ''import { CATEGORIES } from "../core/constants/categories";'',
       ''import b from "b";'',
       ''if (item.category === CATEGORIES.protein) return true;'']
   \<and> split_nl (add_import_if_needed
      (fst (rewrite (join_nl [''import a from "a";'', ''import b from "b";'',
                              ''if (item.category === "protein") return true;''])))
      \<lparr>parts = [''src'', ''a.ts''], str = ''src/a.ts''\<rparr>)
    \<noteq> [''import a from "a";'',
       ''import b from "b";'',
       ''import { CATEGORIES } from "../core/constants/categories";'',
       ''if (item.category === CATEGORIES.protein) return true;'']\<close>
  by code_simp

text \<open>
  C3: import insertion is idempotent and never duplicates. For every content and path,
  inserting twice gives what inserting once gives, and a content that holds the canonical
  spelling \<^verbatim>\<open>import { CATEGORIES }\<close> comes back unchanged.
\<close>

theorem add_import_idempotent:
  "add_import_if_needed (add_import_if_needed content fp) fp = add_import_if_needed content fp
   \<and> (sublist ''import { CATEGORIES }'' content \<longrightarrow> add_import_if_needed content fp = content)"
proof (cases "sublist ''CATEGORIES'' content \<and> \<not> sublist ''import { CATEGORIES }'' content")
  case True
  then have "sublist ''import { CATEGORIES }'' (add_import_if_needed content fp)"
    by (simp add: add_import_has_import)
  then show ?thesis using True by (simp add: add_import_unchanged)
next
  case False
  then show ?thesis by (auto simp: add_import_unchanged)
qed

theorem add_import_idempotent_witness:
  \<open>sublist ''import { CATEGORIES }'' ''import { CATEGORIES } from "x";''
   \<and> add_import_if_needed ''import { CATEGORIES } from "x";'' \<lparr>parts = [''src'', ''a.ts''], str = ''src/a.ts''\<rparr>
       = ''import { CATEGORIES } from "x";''\<close>
  using add_import_idempotent [of \<open>''import { CATEGORIES } from "x";''\<close> "\<lparr>parts = [''src'', ''a.ts''], str = ''src/a.ts''\<rparr>"]
  by (simp add: sublist_code)



text \<open>
  C5: the classification of the path. If a segment is one of \<^verbatim>\<open>tests\<close>, \<^verbatim>\<open>logic\<close>,
  \<^verbatim>\<open>utils\<close>, \<^verbatim>\<open>export\<close>, \<^verbatim>\<open>premium\<close>, \<^verbatim>\<open>storage\<close>, the import two levels up is returned;
  otherwise, if a segment is \<^verbatim>\<open>components\<close> or \<^verbatim>\<open>pages\<close>, the import three levels up;
  otherwise the import one level up. With segments of both families the first one wins.
\<close>

theorem get_import_statement_classification:
  "get_import_statement fp =
     (if \<exists>seg\<in>set (parts fp). seg \<in> {''tests'', ''logic'', ''utils'', ''export'', ''premium'', ''storage''}
        then import_up 2
      else if \<exists>seg\<in>set (parts fp). seg \<in> {''components'', ''pages''} then import_up 3
      else import_up 1)"
  by (auto simp: get_import_statement_def import_up_def IMPORT_STATEMENT_def
      IMPORT_STATEMENT_NESTED_def IMPORT_STATEMENT_DEEP_def numeral_2_eq_2 numeral_3_eq_3)

theorem get_import_statement_classification_witness:
  "get_import_statement \<lparr>parts = [''src'', ''components'', ''tests'', ''a.tsx''], str = ''src/components/tests/a.tsx''\<rparr>
     = import_up 2"
  using get_import_statement_classification [of "\<lparr>parts = [''src'', ''components'', ''tests'', ''a.tsx''], str = ''src/components/tests/a.tsx''\<rparr>"]
  by simp

text \<open>
  C6, as the script behaves: an import is inserted exactly when the text \<^verbatim>\<open>CATEGORIES\<close>
  occurs anywhere in the content, be it inside a longer identifier, and the text
  \<^verbatim>\<open>import { CATEGORIES }\<close> does not; so a content in which \<^verbatim>\<open>CATEGORIES\<close> does not occur
  at all comes back unchanged.
\<close>

theorem add_import_changes_iff:
  "add_import_if_needed content fp \<noteq> content \<longleftrightarrow>
     sublist ''CATEGORIES'' content \<and> \<not> sublist ''import { CATEGORIES }'' content"
  using add_import_has_import [of content fp] add_import_unchanged [of content fp] by metis

theorem add_import_changes_iff_witness:
  "add_import_if_needed ''const SUBCATEGORIES = 1;'' \<lparr>parts = [''src'', ''a.ts''], str = ''src/a.ts''\<rparr>
        \<noteq> ''const SUBCATEGORIES = 1;''
   \<and> add_import_if_needed ''const x = 1;'' \<lparr>parts = [''src'', ''a.ts''], str = ''src/a.ts''\<rparr> = ''const x = 1;''"
  using add_import_changes_iff [of "''const SUBCATEGORIES = 1;''" "\<lparr>parts = [''src'', ''a.ts''], str = ''src/a.ts''\<rparr>"]
    add_import_changes_iff [of "''const x = 1;''" "\<lparr>parts = [''src'', ''a.ts''], str = ''src/a.ts''\<rparr>"]
  by (simp add: sublist_code)

text \<open>
  The claim C6 as stated asks for a token of its own. In \<^verbatim>\<open>const SUBCATEGORIES = 1;\<close> the
  name occurs only inside a longer identifier, and the import is inserted all the same.
\<close>

theorem add_import_token_counterexample:
  "\<not> occurs_as_token ''CATEGORIES'' ''const SUBCATEGORIES = 1;''
   \<and> add_import_if_needed ''const SUBCATEGORIES = 1;'' \<lparr>parts = [''src'', ''a.ts''], str = ''src/a.ts''\<rparr>
        \<noteq> ''const SUBCATEGORIES = 1;''"
  by (simp add: occurs_as_token_def ident_char_def add_import_if_needed_def sublist_code
      get_import_statement_def IMPORT_STATEMENT_def rstrip_def is_space_def nl_def)

text \<open>
  C7: for every content, if the rewrite step reports a change then its output holds the
  constant's name \<^verbatim>\<open>CATEGORIES\<close> at least once.
\<close>

theorem rewrite_changed_references_constant:
  assumes "snd (rewrite content)"
  shows "sublist ''CATEGORIES'' (fst (rewrite content))"
proof -
  from assms have "apply_replacements CATEGORY_REPLACEMENTS content \<noteq> content"
    by (simp add: rewrite_def Let_def)
  then have "sublist ''CATEGORIES'' (apply_replacements CATEGORY_REPLACEMENTS content)"
    by (rule changed_has_constant)
  then show ?thesis by (simp add: rewrite_def Let_def)
qed

theorem rewrite_changed_references_constant_witness:
  \<open>snd (rewrite ''if (x !== "dairy") f("fats");'')
   \<and> sublist ''CATEGORIES'' (fst (rewrite ''if (x !== "dairy") f("fats");''))\<close>
proof -
  have h: \<open>snd (rewrite ''if (x !== "dairy") f("fats");'')\<close> by code_simp
  from h rewrite_changed_references_constant [OF h] show ?thesis by (rule conjI)
qed

text \<open>
  C8: for every file whose content the table leaves unchanged, \<^verbatim>\<open>update_file\<close> returns
  \<^verbatim>\<open>False\<close> and leaves everything as it was: no write is attempted, no import is inserted
  and nothing is printed. The file of the witness refers to \<^verbatim>\<open>CATEGORIES\<close> without importing
  it, and stays so.
\<close>

theorem update_file_unchanged_content:
  assumes "read_text w (str fp) = Inr content"
    and "apply_replacements CATEGORY_REPLACEMENTS content = content"
  shows "update_file fp w = (False, w)"
  using assms by (simp add: update_file_def update_file_try_def)

theorem update_file_unchanged_content_witness:
  "update_file \<lparr>parts = [''src'', ''a.ts''], str = ''src/a.ts''\<rparr>
     \<lparr>read_text = (\<lambda>p. Inr ''x = CATEGORIES.fats;''), write_text = (\<lambda>p c. Written),
      writes = [], stdout = []\<rparr>
   = (False, \<lparr>read_text = (\<lambda>p. Inr ''x = CATEGORIES.fats;''), write_text = (\<lambda>p c. Written),
      writes = [], stdout = []\<rparr>)"
proof -
  have h: "apply_replacements CATEGORY_REPLACEMENTS ''x = CATEGORIES.fats;'' = ''x = CATEGORIES.fats;''"
    by code_simp
  show ?thesis by (rule update_file_unchanged_content [OF _ h]) simp
qed

text \<open>
  C9: a failure while reading or writing a file is caught inside \<^verbatim>\<open>update_file\<close>. It
  returns \<^verbatim>\<open>False\<close>, prints one line that names the file and the cause, and the loop over
  the files goes on with the remaining files and the same count.
\<close>

theorem update_file_io_failure:
  assumes "read_text w (str fp) = Inl e
     \<or> (\<exists>content left. read_text w (str fp) = Inr content
           \<and> apply_replacements CATEGORY_REPLACEMENTS content \<noteq> content
           \<and> write_text w (str fp)
                (add_import_if_needed (apply_replacements CATEGORY_REPLACEMENTS content) fp)
               = Write_Failed e left)"
  shows "fst (update_file fp w) = False
    \<and> stdout (snd (update_file fp w)) = stdout w @ [''Error processing '' @ str fp @ '': '' @ e]
    \<and> (\<not> should_skip_file fp \<longrightarrow>
          update_files (fp # rest) (updated, w)
            = update_files rest (updated, snd (update_file fp w)))"
proof -
  have a: "fst (update_file fp w) = False
    \<and> stdout (snd (update_file fp w)) = stdout w @ [''Error processing '' @ str fp @ '': '' @ e]"
    using assms by (auto simp: update_file_def update_file_try_def Let_def)
  obtain b w' where u: "update_file fp w = (b, w')" by (cases "update_file fp w")
  with a have "b = False" by simp
  with u have "\<not> should_skip_file fp \<Longrightarrow>
      update_files (fp # rest) (updated, w) = update_files rest (updated, snd (update_file fp w))"
    by simp
  with a show ?thesis by blast
qed

theorem update_file_io_failure_witness:
  \<open>(fst (update_file \<lparr>parts = [''src'', ''a.ts''], str = ''src/a.ts''\<rparr>
            \<lparr>read_text = (\<lambda>p. Inl ''Permission denied''), write_text = (\<lambda>p c. Written),
             writes = [], stdout = []\<rparr>) = False
      \<and> stdout (snd (update_file \<lparr>parts = [''src'', ''a.ts''], str = ''src/a.ts''\<rparr>
            \<lparr>read_text = (\<lambda>p. Inl ''Permission denied''), write_text = (\<lambda>p c. Written),
             writes = [], stdout = []\<rparr>))
          = [''Error processing src/a.ts: Permission denied'']
      \<and> update_files [\<lparr>parts = [''src'', ''a.ts''], str = ''src/a.ts''\<rparr>]
            (0, \<lparr>read_text = (\<lambda>p. Inl ''Permission denied''), write_text = (\<lambda>p c. Written),
                 writes = [], stdout = []\<rparr>)
          = (0, snd (update_file \<lparr>parts = [''src'', ''a.ts''], str = ''src/a.ts''\<rparr>
               \<lparr>read_text = (\<lambda>p. Inl ''Permission denied''), write_text = (\<lambda>p c. Written),
                writes = [], stdout = []\<rparr>)))
   \<and> (fst (update_file \<lparr>parts = [''src'', ''a.ts''], str = ''src/a.ts''\<rparr>
            \<lparr>read_text = (\<lambda>p. Inr ''if (x === "fats") {}''),
             write_text = (\<lambda>p c. Write_Failed ''No space left on device'' (Inr [])),
             writes = [], stdout = []\<rparr>) = False
      \<and> stdout (snd (update_file \<lparr>parts = [''src'', ''a.ts''], str = ''src/a.ts''\<rparr>
            \<lparr>read_text = (\<lambda>p. Inr ''if (x === "fats") {}''),
             write_text = (\<lambda>p c. Write_Failed ''No space left on device'' (Inr [])),
             writes = [], stdout = []\<rparr>))
          = [''Error processing src/a.ts: No space left on device''])\<close>
proof -
  let ?fp = "\<lparr>parts = [''src'', ''a.ts''], str = ''src/a.ts''\<rparr>"
  let ?w1 = "\<lparr>read_text = (\<lambda>p. Inl ''Permission denied''), write_text = (\<lambda>p c. Written),
             writes = [], stdout = []\<rparr>"
  let ?w2 = \<open>\<lparr>read_text = (\<lambda>p. Inr ''if (x === "fats") {}''),
             write_text = (\<lambda>p c. Write_Failed ''No space left on device'' (Inr [])),
             writes = [], stdout = []\<rparr>\<close>
  have ch: \<open>apply_replacements CATEGORY_REPLACEMENTS ''if (x === "fats") {}'' \<noteq> ''if (x === "fats") {}''\<close>
    by code_simp
  have h1: "read_text ?w1 (str ?fp) = Inl ''Permission denied''
     \<or> (\<exists>content left. read_text ?w1 (str ?fp) = Inr content
           \<and> apply_replacements CATEGORY_REPLACEMENTS content \<noteq> content
           \<and> write_text ?w1 (str ?fp)
                (add_import_if_needed (apply_replacements CATEGORY_REPLACEMENTS content) ?fp)
               = Write_Failed ''Permission denied'' left)"
    by (rule disjI1) simp
  have "read_text ?w2 (str ?fp) = Inr ''if (x === \"fats\") {}''
           \<and> apply_replacements CATEGORY_REPLACEMENTS ''if (x === \"fats\") {}'' \<noteq> ''if (x === \"fats\") {}''
           \<and> write_text ?w2 (str ?fp)
                (add_import_if_needed (apply_replacements CATEGORY_REPLACEMENTS ''if (x === \"fats\") {}'') ?fp)
               = Write_Failed ''No space left on device'' (Inr [])"
    using ch by simp
  then have h2: "read_text ?w2 (str ?fp) = Inl ''No space left on device''
     \<or> (\<exists>content left. read_text ?w2 (str ?fp) = Inr content
           \<and> apply_replacements CATEGORY_REPLACEMENTS content \<noteq> content
           \<and> write_text ?w2 (str ?fp)
                (add_import_if_needed (apply_replacements CATEGORY_REPLACEMENTS content) ?fp)
               = Write_Failed ''No space left on device'' left)"
    by blast
  have skip: "\<not> should_skip_file ?fp" by code_simp
  have a: "fst (update_file ?fp ?w1) = False
      \<and> stdout (snd (update_file ?fp ?w1)) = [''Error processing src/a.ts: Permission denied'']
      \<and> update_files [?fp] (0, ?w1) = (0, snd (update_file ?fp ?w1))"
    using update_file_io_failure [OF h1, where rest = "[]" and updated = 0] skip by simp
  have b: "fst (update_file ?fp ?w2) = False
      \<and> stdout (snd (update_file ?fp ?w2)) = [''Error processing src/a.ts: No space left on device'']"
    using update_file_io_failure [OF h2, where rest = "[]" and updated = 0] by simp
  from a b show ?thesis by (rule conjI)
qed

text \<open>
  C10: for every content and path, import insertion returns the content unchanged, or a
  content whose lines are the lines of the original with one new line, the import
  statement, inserted at one position; every original line is kept, in order.
\<close>

theorem add_import_line_frame:
  "add_import_if_needed content fp = content
   \<or> (\<exists>i\<le>length (split_nl content).
         split_nl (add_import_if_needed content fp) =
           take i (split_nl content) @ [rstrip (get_import_statement fp)]
             @ drop i (split_nl content))"
  using add_import_lines [of content fp] add_import_unchanged [of content fp] by blast

theorem add_import_line_frame_witness:
  \<open>split_nl (add_import_if_needed (''import a;'' @ [nl] @ ''x = CATEGORIES.fats;'') \<lparr>parts = [''src'', ''a.ts''], str = ''src/a.ts''\<rparr>)
    = [''import a;'', ''import { CATEGORIES } from "../core/constants/categories";'', ''x = CATEGORIES.fats;'']\<close>
  using add_import_line_frame [of "''import a;'' @ [nl] @ ''x = CATEGORIES.fats;''" "\<lparr>parts = [''src'', ''a.ts''], str = ''src/a.ts''\<rparr>"]
  by (simp add: add_import_if_needed_def sublist_code
      get_import_statement_def IMPORT_STATEMENT_def rstrip_def is_space_def nl_def)

end
